theory Spec2Isabelle
  imports Main
begin

section \<open>Values, typed arrays and arrays\<close>

text \<open>
  The adapter of \<^verbatim>\<open>src/index.ts\<close> never computes with a sample: it reads numbers out of
  the host's \<^verbatim>\<open>Float32Array\<close>s, hands them to the implementation and stores what comes
  back. The ordinary numbers are therefore a type parameter \<open>'n\<close>; what the code can
  add to them is \<^verbatim>\<open>NaN\<close> (a store of \<^verbatim>\<open>undefined\<close> into a typed array) and
  \<^verbatim>\<open>undefined\<close> itself (a read past the end of an array). The rounding of a stored
  number to single precision belongs to the host's typed arrays and is not modelled.
\<close>

datatype 'n number = NaN | Num 'n

datatype 'n val = Undefined | Number "'n number"

type_synonym 'n float32array = "'n number list"

text \<open>\<^verbatim>\<open>a[i]\<close> on a typed array and on an array: \<^verbatim>\<open>undefined\<close> out of range.\<close>

definition f32_get :: "'n float32array \<Rightarrow> nat \<Rightarrow> 'n val" where
  "f32_get a i = (if i < length a then Number (a ! i) else Undefined)"

definition js_get :: "'n val list \<Rightarrow> nat \<Rightarrow> 'n val" where
  "js_get a i = (if i < length a then a ! i else Undefined)"

text \<open>The conversion a typed array applies to what is stored in it.\<close>

fun toNumber :: "'n val \<Rightarrow> 'n number" where
  "toNumber Undefined = NaN"
| "toNumber (Number x) = x"

text \<open>
  \<^verbatim>\<open>a[i] = v\<close> on a typed array: a store past the end is ignored, which is what
  \<open>list_update\<close> does.
\<close>

definition f32_set :: "'n float32array \<Rightarrow> nat \<Rightarrow> 'n val \<Rightarrow> 'n float32array" where
  "f32_set a i v = a[i := toNumber v]"

text \<open>\<^verbatim>\<open>a.length = n\<close> on an array: truncates, or extends with holes.\<close>

definition set_length :: "nat \<Rightarrow> 'n val list \<Rightarrow> 'n val list" where
  "set_length n a = take n a @ replicate (n - length a) Undefined"

section \<open>The types of the source\<close>

text \<open>\<^verbatim>\<open>FrameArgs\<close>, with \<^verbatim>\<open>env\<close> flattened; \<^verbatim>\<open>port\<close> is the \<open>posted\<close> field of the processor.\<close>

record 'n frame_args =
  input :: "'n val list"
  parameters :: "string \<rightharpoonup> 'n val"
  outputChannelCount :: "nat option"
  sampleRate :: 'n

text \<open>
  \<^verbatim>\<open>Output = number | number[]\<close> and \<^verbatim>\<open>FrameOutput = Output | YieldOutput\<close>. The README
  says that an implementation returns a number or a \<^verbatim>\<open>Float32Array\<close>, and nothing keeps a
  typed array from reaching lines 97 to 113: \<open>Typed\<close> is such a return value, \<open>Arr\<close> an
  array (\<^verbatim>\<open>number[]\<close>, as \<^verbatim>\<open>args.input\<close> is).
\<close>

datatype 'n "output" = Scalar "'n val" | Arr "'n val list" | Typed "'n float32array"

datatype 'n frame_output = Plain "'n output" | YieldOutput "'n output" bool

datatype error = RangeError | Error | TypeError

datatype outcome = Threw error | Returned bool

text \<open>
  A per-frame function of the implementation (\<^verbatim>\<open>impl\<close> itself, \<^verbatim>\<open>instance.next\<close> or
  \<^verbatim>\<open>iterator.next\<close>): from the implementation's own state \<open>'s\<close> and the frame arguments
  to its result, its new state and the contents it leaves in \<^verbatim>\<open>args.input\<close> (the README
  recommends modifying \<^verbatim>\<open>input\<close> in place). It reads \<^verbatim>\<open>parameters\<close> and \<^verbatim>\<open>env\<close>, which
  \<^verbatim>\<open>FrameArgs\<close> declares \<^verbatim>\<open>readonly\<close>, and it returns normally.
\<close>

type_synonym ('n, 's) callable =
  "'s \<Rightarrow> 'n frame_args \<Rightarrow> 'n frame_output \<times> 's \<times> 'n val list"

text \<open>
  \<^verbatim>\<open>Implementation = ClassImpl | GeneratorImpl | PureImpl\<close>.
  \<^item> \<open>GeneratorImpl create resume ret\<close>: \<open>create\<close> is the call \<^verbatim>\<open>impl(args)\<close> that makes the
    iterator, \<open>resume\<close> is \<^verbatim>\<open>iterator.next\<close>, \<open>ret\<close> is \<^verbatim>\<open>iterator.return\<close> when the
    iterator has one.
  \<^item> \<open>PureImpl f\<close>: \<open>f\<close> is \<^verbatim>\<open>impl\<close>.
  \<^item> \<open>ClassImpl construct advance\<close>: \<open>construct\<close> is \<^verbatim>\<open>new impl(...)\<close>, applied to the
    argument the constructor receives (\<open>None\<close> when it is called without one), \<open>advance\<close>
    is \<^verbatim>\<open>instance.next\<close> when the instance has one.

  \<^verbatim>\<open>simpleAudioWorklet\<close> is reached through \<^verbatim>\<open>fromGenerator\<close>, \<^verbatim>\<open>fromClass\<close> and \<^verbatim>\<open>fromPure\<close>
  only, which set the tag, so that no other tag reaches \<^verbatim>\<open>first\<close>.
\<close>

datatype ('n, 's) implementation =
    GeneratorImpl "'n frame_args \<Rightarrow> 's \<Rightarrow> 's" "('n, 's) callable" "('s \<Rightarrow> 's) option"
  | PureImpl "('n, 's) callable"
  | ClassImpl "'n frame_args option \<Rightarrow> 's \<Rightarrow> 's" "('n, 's) callable option"

text \<open>What the processor does to the implementation, in order.\<close>

datatype 'n call =
    NextCalled "'n frame_args"
  | GeneratorCreated "'n frame_args"
  | Constructed "'n frame_args option"
  | Invoked "'n frame_args"
  | CleanupCalled

text \<open>The value of \<^verbatim>\<open>this.next\<close>: \<^verbatim>\<open>this.first\<close>, or the function it was switched to.\<close>

datatype ('n, 's) target = First | Resolved "('n, 's) callable"

text \<open>
  An instance of \<^verbatim>\<open>Subclass\<close>. The first four fields are the fields of the class. The
  others are what the instance acts on: \<open>posted\<close> holds the messages sent with
  \<^verbatim>\<open>port.postMessage\<close>, \<open>impl_state\<close> is the state owned by the implementation, and
  \<open>calls\<close> lists the calls made into the implementation (\<open>NextCalled a\<close> for
  \<^verbatim>\<open>this.next(this.args)\<close> in the frame loop, with the arguments as they were passed).
\<close>

record ('n, 's) "subclass" =
  "next" :: "('n, 's) target"
  isDone :: bool
  cleanup :: "('s \<Rightarrow> 's) option"
  args :: "'n frame_args"
  posted :: "string list"
  impl_state :: 's
  calls :: "'n call list"

section \<open>Constructor, control messages and stop\<close>

text \<open>
  \<^verbatim>\<open>constructor(options)\<close>: \<open>occ\<close> is \<^verbatim>\<open>options.outputChannelCount\<close>, \<open>sr\<close> the global
  \<^verbatim>\<open>sampleRate\<close>, \<open>st\<close> the state the implementation starts from.
\<close>

definition "constructor" :: "nat list option \<Rightarrow> 'n \<Rightarrow> 's \<Rightarrow> ('n, 's) subclass" where
  "constructor occ sr st =
     \<lparr> next = First, isDone = False, cleanup = None,
       args = \<lparr> input = [], parameters = Map.empty,
                outputChannelCount =
                  (case occ of None \<Rightarrow> Some 2
                   | Some xs \<Rightarrow> (case xs of [] \<Rightarrow> None | x # _ \<Rightarrow> Some x)),
                sampleRate = sr \<rparr>,
       posted = [], impl_state = st, calls = [] \<rparr>"

definition stop :: "('n, 's) subclass \<Rightarrow> ('n, 's) subclass" where
  "stop s =
     (let s1 = s\<lparr>isDone := True\<rparr>
      in case cleanup s1 of
           None \<Rightarrow> s1
         | Some ret \<Rightarrow> s1\<lparr>impl_state := ret (impl_state s1), calls := calls s1 @ [CleanupCalled]\<rparr>)"

definition toLowerCase :: "string \<Rightarrow> string" where
  "toLowerCase d =
     map (\<lambda>c. if 65 \<le> (of_char c :: nat) \<and> (of_char c :: nat) \<le> 90
               then char_of (of_char c + 32 :: nat) else c) d"

text \<open>
  The listener that the constructor adds to the port (lines 26 to 30); \<open>d\<close> is
  \<^verbatim>\<open>e.data.toString()\<close>. The \<^verbatim>\<open>onmessage\<close> option is a second listener of the caller's, which
  has no access to the instance.
\<close>

definition listener :: "string \<Rightarrow> ('n, 's) subclass \<Rightarrow> ('n, 's) subclass" where
  "listener d s = (if toLowerCase d = ''stop'' then stop s else s)"

section \<open>The dispatcher\<close>

text \<open>A call of a per-frame function of the implementation with \<^verbatim>\<open>this.args\<close>.\<close>

definition invoke ::
  "('n, 's) callable \<Rightarrow> ('n, 's) subclass \<Rightarrow> 'n frame_output \<times> ('n, 's) subclass" where
  "invoke f s =
     (case f (impl_state s) (args s) of
        (r, st, inp) \<Rightarrow>
          (r, s\<lparr>impl_state := st, args := (args s)\<lparr>input := inp\<rparr>,
                calls := calls s @ [Invoked (args s)]\<rparr>))"

definition first ::
  "('n::zero, 's) implementation \<Rightarrow> ('n, 's) subclass \<Rightarrow>
   (error + 'n frame_output) \<times> ('n, 's) subclass" where
  "first impl s =
     (case impl of
        GeneratorImpl create resume ret \<Rightarrow>
          (Inr (Plain (Scalar (Number (Num 0)))),
           s\<lparr>impl_state := create (args s) (impl_state s),
             next := Resolved resume, cleanup := ret,
             calls := calls s @ [GeneratorCreated (args s)]\<rparr>)
      | PureImpl f \<Rightarrow>
          (case invoke f (s\<lparr>next := Resolved f\<rparr>) of (r, s') \<Rightarrow> (Inr r, s'))
      | ClassImpl construct advance \<Rightarrow>
          (let s1 = s\<lparr>impl_state := construct None (impl_state s),
                      calls := calls s @ [Constructed None]\<rparr>
           in case advance of
                Some f \<Rightarrow> (case invoke f (s1\<lparr>next := Resolved f\<rparr>) of (r, s') \<Rightarrow> (Inr r, s'))
              | None \<Rightarrow> (Inl Error, s1)))"

text \<open>\<^verbatim>\<open>this.next(this.args)\<close>, line 85.\<close>

definition call_next ::
  "('n::zero, 's) implementation \<Rightarrow> ('n, 's) subclass \<Rightarrow>
   (error + 'n frame_output) \<times> ('n, 's) subclass" where
  "call_next impl s =
     (let s0 = s\<lparr>calls := calls s @ [NextCalled (args s)]\<rparr>
      in case next s0 of
           First \<Rightarrow> first impl s0
         | Resolved f \<Rightarrow> (case invoke f s0 of (r, s') \<Rightarrow> (Inr r, s')))"

text \<open>
  \<^verbatim>\<open>isYieldOutput\<close>: \<^verbatim>\<open>hasOwnProperty.call(value, 'value')\<close> raises a TypeError on
  \<^verbatim>\<open>undefined\<close>, is false on a number, an array or a typed array and true on a
  \<^verbatim>\<open>{value, done}\<close> object.
\<close>

fun isYieldOutput :: "'n frame_output \<Rightarrow> error + bool" where
  "isYieldOutput (Plain (Scalar Undefined)) = Inl TypeError"
| "isYieldOutput (Plain v) = Inr False"
| "isYieldOutput (YieldOutput v d) = Inr True"

text \<open>
  Lines 86 to 89: \<^verbatim>\<open>({value, done: this.isDone} = value)\<close> on a yield output; any other
  value is kept as it is.
\<close>

fun unwrap ::
  "'n frame_output \<Rightarrow> ('n, 's) subclass \<Rightarrow> 'n output \<times> ('n, 's) subclass" where
  "unwrap (Plain v) s = (v, s)"
| "unwrap (YieldOutput v d) s = (v, s\<lparr>isDone := d\<rparr>)"

section \<open>The block adapter\<close>

type_synonym 'n bus = "'n float32array list"

type_synonym 'n process_parameters = "(string \<times> 'n float32array) list"

text \<open>
  Lines 56 to 65. The parameters object is an association list; \<^verbatim>\<open>parameters[key]\<close> is
  \<open>map_of\<close>, and \<^verbatim>\<open>hasOwnProperty\<close> is its answer being \<open>Some\<close>.
\<close>

definition init_key ::
  "'n process_parameters \<Rightarrow> string \<Rightarrow> (string \<rightharpoonup> 'n val) \<times> string list \<Rightarrow>
   (string \<rightharpoonup> 'n val) \<times> string list" where
  "init_key ps key acc =
     (case acc of (m, changed) \<Rightarrow>
        (case map_of ps key of
           None \<Rightarrow> (m, changed)
         | Some a \<Rightarrow> (m(key \<mapsto> f32_get a 0),
                      if length a \<noteq> 1 then changed @ [key] else changed)))"

definition init_parameters ::
  "'n process_parameters \<Rightarrow> (string \<rightharpoonup> 'n val) \<Rightarrow> (string \<rightharpoonup> 'n val) \<times> string list" where
  "init_parameters ps m = fold (init_key ps) (map fst ps) (m, [])"

text \<open>
  Lines 75 to 77. Reading \<^verbatim>\<open>[frame]\<close> of a missing entry would raise a TypeError; the
  keys of \<open>changed\<close> are own keys of \<open>ps\<close>, so it does not happen in \<open>process\<close>.
\<close>

fun update_changed ::
  "'n process_parameters \<Rightarrow> nat \<Rightarrow> string list \<Rightarrow> (string \<rightharpoonup> 'n val) \<Rightarrow>
   error option \<times> (string \<rightharpoonup> 'n val)" where
  "update_changed ps frame [] m = (None, m)"
| "update_changed ps frame (key # keys) m =
     (case map_of ps key of
        None \<Rightarrow> (Some TypeError, m)
      | Some a \<Rightarrow> update_changed ps frame keys (m(key \<mapsto> f32_get a frame)))"

text \<open>Lines 79 to 82.\<close>

definition refresh_input :: "'n bus \<Rightarrow> nat \<Rightarrow> 'n val list \<Rightarrow> 'n val list" where
  "refresh_input inp frame xs =
     fold (\<lambda>channel ys. (set_length (length inp) ys)[channel := f32_get (inp ! channel) frame])
       [0..<length inp] xs"

text \<open>Lines 74 to 82: the frame arguments are brought up to date for \<open>frame\<close>.\<close>

definition prepare ::
  "'n bus \<Rightarrow> 'n process_parameters \<Rightarrow> string list \<Rightarrow> nat \<Rightarrow> ('n, 's) subclass \<Rightarrow>
   error option \<times> ('n, 's) subclass" where
  "prepare inp ps changed frame s =
     (case update_changed ps frame changed (parameters (args s)) of
        (Some e, m) \<Rightarrow> (Some e, s\<lparr>args := (args s)\<lparr>parameters := m\<rparr>\<rparr>)
      | (None, m) \<Rightarrow>
          (None, s\<lparr>args := (args s)\<lparr>parameters := m,
                                   input := refresh_input inp frame (input (args s))\<rparr>\<rparr>))"

text \<open>
  Lines 74 to 95: one frame up to the decision whether the processor is done. \<open>Inl\<close> is
  an exit from \<open>process\<close>, \<open>Inr\<close> the value to be written.
\<close>

definition frame_call ::
  "('n::zero, 's) implementation \<Rightarrow> 'n bus \<Rightarrow> 'n process_parameters \<Rightarrow> string list \<Rightarrow> nat \<Rightarrow>
   ('n, 's) subclass \<Rightarrow> (outcome \<times> ('n, 's) subclass) + ('n output \<times> ('n, 's) subclass)" where
  "frame_call impl inp ps changed frame s =
     (case prepare inp ps changed frame s of
        (Some e, s1) \<Rightarrow> Inl (Threw e, s1)
      | (None, s1) \<Rightarrow>
          (case call_next impl s1 of
             (Inl e, s2) \<Rightarrow> Inl (Threw e, s2)
           | (Inr r, s2) \<Rightarrow>
               (case isYieldOutput r of
                  Inl e \<Rightarrow> Inl (Threw e, s2)
                | Inr y \<Rightarrow>
                    (case unwrap r s2 of
                       (v, s3) \<Rightarrow>
                         if isDone s3
                         then Inl (Returned False, s3\<lparr>posted := posted s3 @ [''done'']\<rparr>)
                         else Inr (v, s3)))))"

text \<open>
  The number that a store into a typed array makes of a typed array: the object is
  converted through its string, the entries joined by commas, which reads as 0 when
  there is no entry, as the entry when there is one, and as \<^verbatim>\<open>NaN\<close> otherwise.
\<close>

definition array_to_number :: "'n::zero float32array \<Rightarrow> 'n number" where
  "array_to_number a = (case a of [] \<Rightarrow> Num 0 | [x] \<Rightarrow> x | _ \<Rightarrow> NaN)"

text \<open>
  Lines 99 to 113. \<open>write_frame f frame out\<close> is the loop
  \<^verbatim>\<open>for (channel ...) output[channel][frame] = f(channel)\<close>. \<^verbatim>\<open>Array.isArray\<close> is true of an
  array only: a typed array goes to the branch of line 109 with a number.
\<close>

definition write_frame :: "(nat \<Rightarrow> 'n val) \<Rightarrow> nat \<Rightarrow> 'n bus \<Rightarrow> 'n bus" where
  "write_frame f frame out =
     fold (\<lambda>channel o'. o'[channel := f32_set (o' ! channel) frame (f channel)])
       [0..<length out] out"

definition shape :: "'n::zero output \<Rightarrow> nat \<Rightarrow> 'n bus \<Rightarrow> 'n bus" where
  "shape v frame out =
     (case v of
        Arr vs \<Rightarrow>
          if length vs \<ge> length out then write_frame (\<lambda>channel. js_get vs channel) frame out
          else write_frame (\<lambda>channel. js_get vs 0) frame out
      | Scalar x \<Rightarrow> write_frame (\<lambda>channel. x) frame out
      | Typed a \<Rightarrow> write_frame (\<lambda>channel. Number (array_to_number a)) frame out)"

text \<open>The body of the main loop, lines 74 to 113.\<close>

definition frame_body ::
  "('n::zero, 's) implementation \<Rightarrow> 'n bus \<Rightarrow> 'n process_parameters \<Rightarrow> string list \<Rightarrow> nat \<Rightarrow>
   'n bus \<times> ('n, 's) subclass \<Rightarrow>
   (outcome \<times> 'n bus \<times> ('n, 's) subclass) + ('n bus \<times> ('n, 's) subclass)" where
  "frame_body impl inp ps changed frame st =
     (case st of (out, s) \<Rightarrow>
        (case frame_call impl inp ps changed frame s of
           Inl (r, s') \<Rightarrow> Inl (r, out, s')
         | Inr (v, s') \<Rightarrow> Inr (shape v frame out, s')))"

text \<open>
  The main loop, lines 73 to 116. \<^verbatim>\<open>output[0].length\<close> is read at every test of the loop
  and raises a TypeError when the output bus has no channel. \<open>processOnly\<close> is the
  option of that name.
\<close>

function frames ::
  "('n::zero, 's) implementation \<Rightarrow> bool \<Rightarrow> 'n bus \<Rightarrow> 'n process_parameters \<Rightarrow> string list \<Rightarrow>
   nat \<Rightarrow> 'n bus \<times> ('n, 's) subclass \<Rightarrow> outcome \<times> 'n bus \<times> ('n, 's) subclass" where
  "frames impl processOnly inp ps changed frame (out, s) =
     (case out of
        [] \<Rightarrow> (Threw TypeError, out, s)
      | ch0 # chs \<Rightarrow>
          if frame < length ch0
          then (case frame_body impl inp ps changed frame (out, s) of
                  Inl r \<Rightarrow> r
                | Inr st \<Rightarrow> frames impl processOnly inp ps changed (frame + 1) st)
          else (Returned (\<not> processOnly), out, s))"
  by pat_completeness auto

text \<open>
  Lines 46 to 70 of \<^verbatim>\<open>process\<close>: the guard, the input and output buses, the parameters
  of the first frame, the environment. \<open>sr\<close> is the global \<^verbatim>\<open>sampleRate\<close> at the call.
  \<open>Inl\<close> is an exit, \<open>Inr\<close> what the main loop starts from.
\<close>

definition enter ::
  "'n \<Rightarrow> 'n bus list \<Rightarrow> 'n bus list \<Rightarrow> 'n process_parameters \<Rightarrow> ('n, 's) subclass \<Rightarrow>
   (outcome \<times> 'n bus list \<times> ('n, 's) subclass) +
   ('n bus \<times> string list \<times> 'n bus \<times> 'n bus list \<times> ('n, 's) subclass)" where
  "enter sr inputs outputs ps s =
     (if isDone s then Inl (Threw RangeError, outputs, s)
      else
        let inp = (case inputs of [] \<Rightarrow> [] | b # _ \<Rightarrow> b)
        in case init_parameters ps (parameters (args s)) of
             (m, changed) \<Rightarrow>
               let s1 = s\<lparr>args := (args s)\<lparr>parameters := m\<rparr>\<rparr>
               in case outputs of
                    [] \<Rightarrow> Inl (Threw TypeError, outputs, s1)
                  | out # rest \<Rightarrow>
                      Inr (inp, changed, out, rest,
                           s1\<lparr>args := (args s1)\<lparr>outputChannelCount := Some (length out),
                                                  sampleRate := sr\<rparr>\<rparr>))"

text \<open>\<^verbatim>\<open>process(inputs, outputs, parameters)\<close>: its outcome, the output buffers, the instance.\<close>

definition process ::
  "('n::zero, 's) implementation \<Rightarrow> bool \<Rightarrow> 'n \<Rightarrow> 'n bus list \<Rightarrow> 'n bus list \<Rightarrow>
   'n process_parameters \<Rightarrow> ('n, 's) subclass \<Rightarrow> outcome \<times> 'n bus list \<times> ('n, 's) subclass" where
  "process impl processOnly sr inputs outputs ps s =
     (case enter sr inputs outputs ps s of
        Inl r \<Rightarrow> r
      | Inr (inp, changed, out, rest, s2) \<Rightarrow>
          (case frames impl processOnly inp ps changed 0 (out, s2) of
             (r, out', s3) \<Rightarrow> (r, out' # rest, s3)))"

section \<open>Executions\<close>

text \<open>
  The host is single-threaded: it calls \<^verbatim>\<open>process\<close> once per block and delivers a control
  message between two such calls. An execution is the list of these events, applied to
  the instance in order; an exception of \<^verbatim>\<open>process\<close> goes to the host and the instance
  stays as the call left it.
\<close>

datatype 'n event =
    Message string
  | Process "'n bus list" "'n bus list" "'n process_parameters" 'n

fun run ::
  "('n::zero, 's) implementation \<Rightarrow> bool \<Rightarrow> 'n event list \<Rightarrow> ('n, 's) subclass \<Rightarrow>
   ('n, 's) subclass" where
  "run impl processOnly [] s = s"
| "run impl processOnly (Message d # es) s = run impl processOnly es (listener d s)"
| "run impl processOnly (Process inputs outputs ps sr # es) s =
     run impl processOnly es (snd (snd (process impl processOnly sr inputs outputs ps s)))"



text \<open>Views of the call list and of the posted messages.\<close>

fun nexts :: "'n call list \<Rightarrow> 'n frame_args list" where
  "nexts [] = []"
| "nexts (NextCalled a # cs) = a # nexts cs"
| "nexts (c # cs) = nexts cs"

fun invocations :: "'n call list \<Rightarrow> 'n frame_args list" where
  "invocations [] = []"
| "invocations (Invoked a # cs) = a # invocations cs"
| "invocations (c # cs) = invocations cs"

fun cleanups :: "'n call list \<Rightarrow> nat" where
  "cleanups [] = 0"
| "cleanups (CleanupCalled # cs) = Suc (cleanups cs)"
| "cleanups (c # cs) = cleanups cs"

definition dones :: "string list \<Rightarrow> nat" where
  "dones ms = length (filter (\<lambda>m. m = ''done'') ms)"

text \<open>The number of stop messages among the events of an execution.\<close>

fun stops :: "'n event list \<Rightarrow> nat" where
  "stops [] = 0"
| "stops (Message d # es) = (if toLowerCase d = ''stop'' then Suc (stops es) else stops es)"
| "stops (e # es) = stops es"


section \<open>Example implementations\<close>

text \<open>
  Implementations in the style of the README, over integer samples, on which the
  theorems below are instantiated. \<open>passthrough\<close> is a pure function that returns its
  \<^verbatim>\<open>input\<close>. \<open>countdown\<close> is the \<^verbatim>\<open>next\<close> of an iterator that yields its counter and is done
  when the counter has reached zero; \<open>countdown_generator\<close> is the generator function
  around it, whose \<^verbatim>\<open>return\<close> finishes the iterator, and \<open>countdown_class\<close> a class whose
  instances have it as \<^verbatim>\<open>next\<close>. \<open>typed_pair\<close> is a pure function that returns the typed
  array of 1 and 2. The buses have three frames: \<open>ramp\<close> is an input bus, \<open>silence\<close> and
  \<open>noise\<close> are the output buffers of a call, one bus of two channels, and \<open>automation\<close> has a parameter with a value for each frame
  and a parameter with a single value.
\<close>

definition passthrough :: "(int, unit) callable" where
  "passthrough st a = (Plain (Arr (input a)), st, input a)"

definition countdown :: "(int, nat) callable" where
  "countdown st a = (YieldOutput (Scalar (Number (Num (int st)))) (st = 0), st - 1, input a)"

definition countdown_generator :: "(int, nat) implementation" where
  "countdown_generator = GeneratorImpl (\<lambda>a st. st) countdown (Some (\<lambda>st. 0))"


definition typed_pair :: "(int, unit) callable" where
  "typed_pair st a = (Plain (Typed [Num 1, Num 2]), st, input a)"

definition ramp :: "int bus" where
  "ramp = [[Num 1, Num 2, Num 3]]"

definition noise :: "int bus list" where
  "noise = [[[Num 7, Num 8, Num 9], [Num 7, Num 8, Num 9]]]"


definition silence :: "int bus list" where
  "silence = [[[Num 0, Num 0, Num 0], [Num 0, Num 0, Num 0]]]"

section \<open>Termination of the main loop\<close>

lemma fold_channels_length:
  "length (fold (\<lambda>channel o'. o'[channel := g (o' ! channel) channel]) cs out) = length out"
  by (induction cs arbitrary: out) simp_all

lemma fold_channels_nth:
  "c < length out \<Longrightarrow> distinct cs \<Longrightarrow>
   fold (\<lambda>channel o'. o'[channel := g (o' ! channel) channel]) cs out ! c =
     (if c \<in> set cs then g (out ! c) c else out ! c)"
proof (induction cs arbitrary: out)
  case Nil
  then show ?case by simp
next
  case (Cons a cs)
  have "fold (\<lambda>channel o'. o'[channel := g (o' ! channel) channel]) (a # cs) out ! c =
        fold (\<lambda>channel o'. o'[channel := g (o' ! channel) channel]) cs (out[a := g (out ! a) a]) ! c"
    by simp
  also have "\<dots> = (if c \<in> set cs then g (out[a := g (out ! a) a] ! c) c
                    else out[a := g (out ! a) a] ! c)"
    using Cons.prems by (intro Cons.IH) simp_all
  also have "\<dots> = (if c \<in> set (a # cs) then g (out ! c) c else out ! c)"
    using Cons.prems by (cases "a = c") (auto simp: nth_list_update)
  finally show ?case .
qed

lemma length_write_frame [simp]: "length (write_frame f frame out) = length out"
  unfolding write_frame_def
  by (rule fold_channels_length [where g = "\<lambda>x channel. f32_set x frame (f channel)"])

lemma nth_write_frame:
  "c < length out \<Longrightarrow> write_frame f frame out ! c = f32_set (out ! c) frame (f c)"
  unfolding write_frame_def
  using fold_channels_nth [where g = "\<lambda>x channel. f32_set x frame (f channel)"
      and cs = "[0..<length out]" and out = out and c = c]
  by simp

lemma length_shape [simp]: "length (shape v frame out) = length out"
  by (simp add: shape_def split: output.splits)

lemma length_nth_shape:
  "c < length out \<Longrightarrow> length (shape v frame out ! c) = length (out ! c)"
  by (simp add: shape_def nth_write_frame f32_set_def split: output.splits)

lemma frame_body_Inr_shape:
  "frame_body impl inp ps changed frame (out, s) = Inr (out', s') \<Longrightarrow>
   \<exists>v. out' = shape v frame out"
  by (auto simp: frame_body_def split: sum.splits prod.splits)

termination frames
proof (relation "measure (\<lambda>(impl, po, inp, ps, changed, frame, out, s). length (hd out) - frame)")
  show "wf (measure (\<lambda>(impl, po, inp, ps, changed, frame, out, s). length (hd out) - frame))"
    by simp
next
  fix impl :: "('n::zero, 's) implementation" and processOnly :: bool
    and inp :: "'n bus" and ps :: "'n process_parameters" and changed :: "string list"
    and frame :: nat and out :: "'n bus" and s :: "('n, 's) subclass"
    and ch0 :: "'n float32array" and chs :: "'n bus" and st :: "'n bus \<times> ('n, 's) subclass"
  assume out: "out = ch0 # chs" and lt: "frame < length ch0"
    and body: "frame_body impl inp ps changed frame (out, s) = Inr st"
  obtain out' s' where st: "st = (out', s')" by (cases st)
  from body st obtain v where "out' = shape v frame out"
    using frame_body_Inr_shape by blast
  then have "length (hd out') = length ch0"
    using out length_nth_shape [of 0 out v frame] length_shape [of v frame out]
    by (cases "shape v frame out") (simp_all add: hd_conv_nth del: length_shape)
  then show "((impl, processOnly, inp, ps, changed, frame + 1, st),
              (impl, processOnly, inp, ps, changed, frame, out, s))
             \<in> measure (\<lambda>(impl, po, inp, ps, changed, frame, out, s). length (hd out) - frame)"
    using lt st out by simp
qed

section \<open>Effects of the operations\<close>

lemmas model_defs =
  process_def enter_def constructor_def init_parameters_def init_key_def frames.simps
  frame_body_def frame_call_def prepare_def refresh_input_def set_length_def f32_get_def
  f32_set_def js_get_def call_next_def first_def invoke_def shape_def write_frame_def
  listener_def stop_def Let_def

declare frames.simps [simp del]

lemma nexts_append [simp]: "nexts (xs @ ys) = nexts xs @ nexts ys"
  by (induction xs rule: nexts.induct) simp_all

lemma invocations_append [simp]: "invocations (xs @ ys) = invocations xs @ invocations ys"
  by (induction xs rule: invocations.induct) simp_all

lemma cleanups_append [simp]: "cleanups (xs @ ys) = cleanups xs + cleanups ys"
  by (induction xs rule: cleanups.induct) simp_all

lemma dones_append [simp]: "dones (xs @ ys) = dones xs + dones ys"
  by (simp add: dones_def)

lemma invoke_effect:
  "invoke f s = (r, s') \<Longrightarrow>
   isDone s' = isDone s \<and> posted s' = posted s \<and> next s' = next s \<and> cleanup s' = cleanup s \<and>
   parameters (args s') = parameters (args s) \<and> calls s' = calls s @ [Invoked (args s)]"
  by (auto simp: invoke_def split: prod.splits)

lemma first_effect:
  "first impl s = (r, s') \<Longrightarrow>
   isDone s' = isDone s \<and> posted s' = posted s \<and>
   parameters (args s') = parameters (args s) \<and>
   nexts (calls s') = nexts (calls s) \<and> cleanups (calls s') = cleanups (calls s)"
  by (auto simp: first_def Let_def split: implementation.splits prod.splits option.splits
      dest!: invoke_effect)

lemma call_next_effect:
  "call_next impl s = (r, s') \<Longrightarrow>
   isDone s' = isDone s \<and> posted s' = posted s \<and>
   parameters (args s') = parameters (args s) \<and>
   nexts (calls s') = nexts (calls s) @ [args s] \<and> cleanups (calls s') = cleanups (calls s)"
  by (auto simp: call_next_def Let_def split: target.splits prod.splits
      dest!: invoke_effect first_effect)

lemma call_next_invocation:
  "call_next impl s = (r, s') \<Longrightarrow>
   invocations (calls s') = invocations (calls s) \<or>
   invocations (calls s') = invocations (calls s) @ [args s]"
  by (auto simp: call_next_def first_def invoke_def Let_def
      split: target.splits prod.splits implementation.splits option.splits)

lemma call_next_resolved:
  "call_next impl s = (r, s') \<Longrightarrow> next s = Resolved f \<Longrightarrow>
   next s' = next s \<and> cleanup s' = cleanup s \<and>
   calls s' = calls s @ [NextCalled (args s), Invoked (args s)] \<and>
   (\<exists>x. r = Inr x)"
  by (auto simp: call_next_def Let_def split: target.splits prod.splits
      dest!: invoke_effect)

lemma prepare_effect:
  "prepare inp ps changed frame s = (e, s') \<Longrightarrow>
   isDone s' = isDone s \<and> posted s' = posted s \<and> next s' = next s \<and> cleanup s' = cleanup s \<and>
   calls s' = calls s \<and> impl_state s' = impl_state s \<and>
   parameters (args s') = snd (update_changed ps frame changed (parameters (args s)))"
  by (auto simp: prepare_def split: prod.splits option.splits)

lemma unwrap_effect:
  "unwrap r s = (v, s') \<Longrightarrow>
   posted s' = posted s \<and> next s' = next s \<and> cleanup s' = cleanup s \<and>
   calls s' = calls s \<and> args s' = args s"
  by (cases r) auto

lemma frame_call_Inl:
  "frame_call impl inp ps changed frame s = Inl (r, s') \<Longrightarrow>
   cleanups (calls s') = cleanups (calls s) \<and>
   ((posted s' = posted s @ [''done''] \<and> isDone s' \<and> r = Returned False) \<or>
    (posted s' = posted s \<and> isDone s' = isDone s \<and> (\<exists>e. r = Threw e)))"
  by (auto simp: frame_call_def split: prod.splits option.splits sum.splits if_splits
      dest!: prepare_effect call_next_effect unwrap_effect)

lemma frame_call_Inr:
  "frame_call impl inp ps changed frame s = Inr (v, s') \<Longrightarrow>
   cleanups (calls s') = cleanups (calls s) \<and> posted s' = posted s \<and> \<not> isDone s'"
  by (auto simp: frame_call_def split: prod.splits option.splits sum.splits if_splits
      dest!: prepare_effect call_next_effect unwrap_effect)

lemma frame_call_resolved:
  "frame_call impl inp ps changed frame s = Inl (r, s') \<or>
   frame_call impl inp ps changed frame s = Inr (v, s') \<Longrightarrow> next s = Resolved f \<Longrightarrow>
   next s' = Resolved f \<and> cleanup s' = cleanup s"
  by (auto simp: frame_call_def split: prod.splits option.splits sum.splits if_splits
      dest!: prepare_effect unwrap_effect dest: call_next_resolved)

lemma frames_loop_induct [consumes 1, case_names Empty Finished Exit Step]:
  assumes run: "frames impl po inp ps changed frame (out, s) = (r, out', s')"
    and empty: "\<And>frame s. P frame [] s (Threw TypeError) [] s"
    and finished: "\<And>frame out s. out \<noteq> [] \<Longrightarrow> \<not> frame < length (hd out) \<Longrightarrow>
        P frame out s (Returned (\<not> po)) out s"
    and exit: "\<And>frame out s r s'. out \<noteq> [] \<Longrightarrow> frame < length (hd out) \<Longrightarrow>
        frame_call impl inp ps changed frame s = Inl (r, s') \<Longrightarrow> P frame out s r out s'"
    and step: "\<And>frame out s v s1 r out' s'. out \<noteq> [] \<Longrightarrow> frame < length (hd out) \<Longrightarrow>
        frame_call impl inp ps changed frame s = Inr (v, s1) \<Longrightarrow>
        frames impl po inp ps changed (frame + 1) (shape v frame out, s1) = (r, out', s') \<Longrightarrow>
        P (frame + 1) (shape v frame out) s1 r out' s' \<Longrightarrow> P frame out s r out' s'"
  shows "P frame out s r out' s'"
  using run
proof (induction k \<equiv> "length (hd out) - frame" arbitrary: frame out s rule: less_induct)
  case less
  show ?case
  proof (cases out)
    case Nil
    with less.prems empty [of frame s] show ?thesis by (auto simp: frames.simps)
  next
    case (Cons ch0 chs)
    show ?thesis
    proof (cases "frame < length ch0")
      case False
      with Cons less.prems finished [of out frame s] show ?thesis by (auto simp: frames.simps)
    next
      case True
      show ?thesis
      proof (cases "frame_call impl inp ps changed frame s")
        case (Inl a)
        obtain r1 s1 where a: "a = (r1, s1)" by (cases a)
        with Inl Cons True less.prems have "r = r1" "out' = out" "s' = s1"
          by (simp_all add: frames.simps frame_body_def)
        with Inl a Cons True exit [of out frame s r1 s1] show ?thesis by simp
      next
        case (Inr b)
        obtain v s1 where b: "b = (v, s1)" by (cases b)
        with Inr have body:
          "frame_body impl inp ps changed frame (out, s) = Inr (shape v frame out, s1)"
          by (simp add: frame_body_def)
        with Cons True less.prems
        have rec: "frames impl po inp ps changed (frame + 1) (shape v frame out, s1) = (r, out', s')"
          by (simp add: frames.simps)
        have "length (hd (shape v frame out)) = length ch0"
          using Cons length_nth_shape [of 0 out v frame] length_shape [of v frame out]
          by (cases "shape v frame out") (simp_all add: hd_conv_nth del: length_shape)
        with Cons True have "length (hd (shape v frame out)) - (frame + 1) < length (hd out) - frame"
          by simp
        then have "P (frame + 1) (shape v frame out) s1 r out' s'"
          using rec by (rule less.hyps)
        with Inr b Cons True rec step [of out frame s v s1 r out' s'] show ?thesis by simp
      qed
    qed
  qed
qed

lemma frames_emits:
  "frames impl po inp ps changed frame (out, s) = (r, out', s') \<Longrightarrow>
   cleanups (calls s') = cleanups (calls s) \<and>
   ((posted s' = posted s @ [''done''] \<and> isDone s' \<and> r = Returned False) \<or>
    (posted s' = posted s \<and> (isDone s' \<longrightarrow> isDone s)))"
proof (induction rule: frames_loop_induct)
  case (Exit frame out s r s')
  then show ?case using frame_call_Inl [of impl inp ps changed frame s r s'] by auto
next
  case (Step frame out s v s1 r out' s')
  then show ?case using frame_call_Inr [of impl inp ps changed frame s v s1] by auto
qed simp_all

lemma process_isDone:
  "isDone s \<Longrightarrow> process impl po sr inputs outputs ps s = (Threw RangeError, outputs, s)"
  by (simp add: process_def enter_def)

lemma enter_Inl:
  "enter sr inputs outputs ps s = Inl (r, outputs', s') \<Longrightarrow>
   outputs' = outputs \<and> (\<exists>e. r = Threw e) \<and> isDone s' = isDone s \<and> posted s' = posted s \<and>
   calls s' = calls s \<and> next s' = next s \<and> cleanup s' = cleanup s"
  by (auto simp: enter_def Let_def split: if_splits prod.splits list.splits)

lemma enter_Inr:
  "enter sr inputs outputs ps s = Inr (inp, changed, out, rest, s2) \<Longrightarrow>
   \<not> isDone s \<and> outputs = out # rest \<and> isDone s2 = isDone s \<and> posted s2 = posted s \<and>
   calls s2 = calls s \<and> next s2 = next s \<and> cleanup s2 = cleanup s \<and>
   inp = (case inputs of [] \<Rightarrow> [] | b # _ \<Rightarrow> b) \<and>
   input (args s2) = input (args s) \<and>
   (parameters (args s2), changed) = init_parameters ps (parameters (args s))"
  by (auto simp: enter_def Let_def split: if_splits prod.splits list.splits)

lemma process_emits:
  assumes "process impl po sr inputs outputs ps s = (r, outputs', s')" and "\<not> isDone s"
  shows "cleanups (calls s') = cleanups (calls s) \<and>
   ((posted s' = posted s @ [''done''] \<and> isDone s' \<and> r = Returned False) \<or>
    (posted s' = posted s \<and> \<not> isDone s'))"
proof (cases "enter sr inputs outputs ps s")
  case (Inl a)
  with assms show ?thesis
    by (cases a) (auto simp: process_def dest!: enter_Inl)
next
  case (Inr b)
  obtain inp changed out rest s2 where b: "b = (inp, changed, out, rest, s2)"
    by (cases b)
  obtain r1 out1 s3 where f: "frames impl po inp ps changed 0 (out, s2) = (r1, out1, s3)"
    by (cases "frames impl po inp ps changed 0 (out, s2)")
  with Inr b assms(1) have "r = r1" "s' = s3" by (simp_all add: process_def)
  with frames_emits [OF f] enter_Inr [of sr inputs outputs ps s inp changed out rest s2] Inr b assms(2)
  show ?thesis by auto
qed

lemma listener_effect:
  "posted (listener d s) = posted s \<and> (isDone s \<longrightarrow> isDone (listener d s)) \<and>
   invocations (calls (listener d s)) = invocations (calls s) \<and>
   nexts (calls (listener d s)) = nexts (calls s) \<and>
   next (listener d s) = next s \<and> cleanup (listener d s) = cleanup s \<and>
   args (listener d s) = args s"
  by (simp add: listener_def stop_def Let_def split: option.splits)

lemma listener_stop:
  "toLowerCase d = ''stop'' \<Longrightarrow> isDone (listener d s)"
  by (simp add: listener_def stop_def Let_def split: option.splits)



lemma frames_resolved:
  "frames impl po inp ps changed frame (out, s) = (r, out', s') \<Longrightarrow> next s = Resolved f \<Longrightarrow>
   next s' = Resolved f \<and> cleanup s' = cleanup s"
proof (induction rule: frames_loop_induct)
  case (Exit frame out s r s')
  then show ?case using frame_call_resolved [of impl inp ps changed frame s r s' _ f] by simp
next
  case (Step frame out s v s1 r out' s')
  then show ?case using frame_call_resolved [of impl inp ps changed frame s _ s1 v f] by simp
qed simp_all

lemma process_resolved:
  assumes "process impl po sr inputs outputs ps s = (r, outputs', s')" and "next s = Resolved f"
  shows "next s' = Resolved f \<and> cleanup s' = cleanup s"
proof (cases "enter sr inputs outputs ps s")
  case (Inl a)
  with assms show ?thesis
    by (cases a) (auto simp: process_def dest!: enter_Inl)
next
  case (Inr b)
  obtain inp changed out rest s2 where b: "b = (inp, changed, out, rest, s2)"
    by (cases b)
  obtain r1 out1 s3 where f: "frames impl po inp ps changed 0 (out, s2) = (r1, out1, s3)"
    by (cases "frames impl po inp ps changed 0 (out, s2)")
  with Inr b assms(1) have "s' = s3" by (simp add: process_def)
  with frames_resolved [OF f, of f] enter_Inr [of sr inputs outputs ps s inp changed out rest s2]
    Inr b assms(2)
  show ?thesis by auto
qed

lemma process_cleanups:
  "cleanups (calls (snd (snd (process impl po sr inputs outputs ps s)))) = cleanups (calls s)"
proof (cases "isDone s")
  case True
  then show ?thesis by (simp add: process_isDone)
next
  case False
  obtain r o' s' where p: "process impl po sr inputs outputs ps s = (r, o', s')"
    by (cases "process impl po sr inputs outputs ps s")
  from process_emits [OF p False] p show ?thesis by simp
qed

lemma run_cleanups:
  "next s = Resolved f \<Longrightarrow> cleanup s = Some ret \<Longrightarrow>
   cleanups (calls (run impl po evs s)) = cleanups (calls s) + stops evs"
proof (induction evs arbitrary: s)
  case Nil
  then show ?case by simp
next
  case (Cons ev evs)
  show ?case
  proof (cases ev)
    case (Message d)
    have "next (listener d s) = Resolved f" "cleanup (listener d s) = Some ret"
      using Cons.prems listener_effect [of d s] by simp_all
    from Cons.IH [OF this] Message Cons.prems show ?thesis
      by (simp add: listener_def stop_def)
  next
    case (Process inputs outputs ps sr)
    obtain r o' s' where p: "process impl po sr inputs outputs ps s = (r, o', s')"
      by (cases "process impl po sr inputs outputs ps s")
    from process_resolved [OF p Cons.prems(1)] Cons.prems(2)
    have "next s' = Resolved f" "cleanup s' = Some ret" by simp_all
    from Cons.IH [OF this] Process p process_cleanups [of impl po sr inputs outputs ps s]
    show ?thesis by simp
  qed
qed

lemma nth_shape_other:
  "c < length out \<Longrightarrow> j \<noteq> frame \<Longrightarrow> shape v frame out ! c ! j = out ! c ! j"
  by (simp add: shape_def nth_write_frame f32_set_def split: output.splits)

lemma nth_shape_frame:
  "c < length out \<Longrightarrow> frame < length (out ! c) \<Longrightarrow>
   shape v frame out ! c ! frame =
     toNumber (case v of
        Arr vs \<Rightarrow> if length out \<le> length vs then js_get vs c else js_get vs 0
      | Scalar x \<Rightarrow> x
      | Typed a \<Rightarrow> Number (array_to_number a))"
  by (simp add: shape_def nth_write_frame f32_set_def split: output.splits)

lemma frame_call_nexts:
  "frame_call impl inp ps changed frame s = Inr (v, s') \<or>
   frame_call impl inp ps changed frame s = Inl (Returned b, s') \<Longrightarrow>
   length (nexts (calls s')) = Suc (length (nexts (calls s)))"
  by (auto simp: frame_call_def split: prod.splits option.splits sum.splits if_splits
      dest!: prepare_effect call_next_effect unwrap_effect)

lemma frames_done_untouched:
  "frames impl po inp ps changed frame (out, s) = (r, out', s') \<Longrightarrow> \<not> isDone s \<Longrightarrow> isDone s' \<Longrightarrow>
   length (nexts (calls s)) < length (nexts (calls s')) \<and> length out' = length out \<and>
   (\<forall>c j. c < length out \<and>
      frame + (length (nexts (calls s')) - length (nexts (calls s))) - 1 \<le> j \<longrightarrow>
      out' ! c ! j = out ! c ! j)"
proof (induction rule: frames_loop_induct)
  case (Exit frame out s r s')
  from frame_call_Inl [OF Exit(3)] Exit(4,5) have "r = Returned False" by auto
  with frame_call_nexts [of impl inp ps changed frame s _ s' False] Exit(3)
  show ?case by simp
next
  case (Step frame out s v s1 r out' s')
  from frame_call_Inr [OF Step(3)] have nd: "\<not> isDone s1" by simp
  from frame_call_nexts [of impl inp ps changed frame s v s1] Step(3)
  have n1: "length (nexts (calls s1)) = Suc (length (nexts (calls s)))" by simp
  from Step.IH [OF nd Step.prems(2)]
  have ih: "length (nexts (calls s1)) < length (nexts (calls s'))"
    "length out' = length out"
    "\<And>c j. c < length out \<Longrightarrow>
       frame + 1 + (length (nexts (calls s')) - length (nexts (calls s1))) - 1 \<le> j \<Longrightarrow>
       out' ! c ! j = shape v frame out ! c ! j"
    by simp_all
  show ?case
  proof (intro conjI allI impI)
    show "length (nexts (calls s)) < length (nexts (calls s'))" using ih(1) n1 by simp
    show "length out' = length out" by (rule ih(2))
  next
    fix c j
    assume a: "c < length out \<and>
      frame + (length (nexts (calls s')) - length (nexts (calls s))) - 1 \<le> j"
    with ih(1) n1 have j: "frame + 1 + (length (nexts (calls s')) - length (nexts (calls s1))) - 1 \<le> j"
      and ne: "j \<noteq> frame"
      by arith+
    from a ih(3) [OF _ j] have "out' ! c ! j = shape v frame out ! c ! j" by simp
    with a ne show "out' ! c ! j = out ! c ! j" by (simp add: nth_shape_other)
  qed
qed simp_all

lemma done_exit:
  assumes "prepare inp ps changed k s = (None, s1)"
    and "call_next impl s1 = (Inr (YieldOutput v True), s2)"
    and "out = ch0 # chs" and "k < length ch0"
  shows "frames impl po inp ps changed k (out, s) =
      (Returned False, out, s2\<lparr>isDone := True, posted := posted s2 @ [''done'']\<rparr>)"
  using assms by (simp add: frames.simps frame_body_def frame_call_def)

lemma update_changed_own_keys:
  "\<forall>key\<in>set changed. map_of ps key \<noteq> None \<Longrightarrow>
   fst (update_changed ps frame changed m) = None \<and>
   snd (update_changed ps frame changed m) name =
     (if name \<in> set changed then Some (f32_get (the (map_of ps name)) frame) else m name)"
proof (induction changed arbitrary: m)
  case Nil
  then show ?case by simp
next
  case (Cons key keys)
  then obtain a where a: "map_of ps key = Some a" by auto
  from Cons.prems have "\<forall>k\<in>set keys. map_of ps k \<noteq> None" by simp
  from Cons.IH [OF this, of "m(key \<mapsto> f32_get a frame)"]
  have ih: "fst (update_changed ps frame keys (m(key \<mapsto> f32_get a frame))) = None"
    "snd (update_changed ps frame keys (m(key \<mapsto> f32_get a frame))) name =
      (if name \<in> set keys then Some (f32_get (the (map_of ps name)) frame)
       else (m(key \<mapsto> f32_get a frame)) name)"
    by blast+
  have unfold: "update_changed ps frame (key # keys) m =
      update_changed ps frame keys (m(key \<mapsto> f32_get a frame))"
    using a by simp
  show ?case unfolding unfold using ih a by simp
qed

lemma fold_init_key:
  "\<forall>key\<in>set ks. map_of ps key \<noteq> None \<Longrightarrow>
   fold (init_key ps) ks (m, changed) = (m', changed') \<Longrightarrow>
   set changed' = set changed \<union> {key \<in> set ks. length (the (map_of ps key)) \<noteq> 1} \<and>
   (\<forall>name. m' name = (if name \<in> set ks then Some (f32_get (the (map_of ps name)) 0) else m name))"
proof (induction ks arbitrary: m changed)
  case Nil
  then show ?case by simp
next
  case (Cons key ks)
  then obtain a where a: "map_of ps key = Some a" by auto
  let ?m = "m(key \<mapsto> f32_get a 0)"
  let ?c = "if length a \<noteq> 1 then changed @ [key] else changed"
  have step: "init_key ps key (m, changed) = (?m, ?c)"
    using a by (simp add: init_key_def)
  from Cons.prems(2) have "fold (init_key ps) ks (init_key ps key (m, changed)) = (m', changed')"
    by simp
  then have "fold (init_key ps) ks (?m, ?c) = (m', changed')"
    unfolding step .
  from Cons.IH [OF _ this] Cons.prems(1)
  have ih: "set changed' = set ?c \<union> {key \<in> set ks. length (the (map_of ps key)) \<noteq> 1}"
    "\<forall>name. m' name = (if name \<in> set ks then Some (f32_get (the (map_of ps name)) 0)
                        else ?m name)"
    by simp_all
  have "set changed' =
      set changed \<union> {k \<in> set (key # ks). length (the (map_of ps k)) \<noteq> 1}"
    unfolding ih(1) using a by auto
  moreover have "\<forall>name. m' name =
      (if name \<in> set (key # ks) then Some (f32_get (the (map_of ps name)) 0) else m name)"
    using ih(2) a by simp
  ultimately show ?case by simp
qed

lemma init_parameters_result:
  assumes "init_parameters ps m = (m', changed)"
  shows "set changed = {key \<in> fst ` set ps. length (the (map_of ps key)) \<noteq> 1} \<and>
   (\<forall>key\<in>set changed. map_of ps key \<noteq> None) \<and>
   (\<forall>name a. map_of ps name = Some a \<longrightarrow> m' name = Some (f32_get a 0))"
proof -
  have own: "\<forall>key\<in>set (map fst ps). map_of ps key \<noteq> None"
    by (auto simp: map_of_eq_None_iff)
  from fold_init_key [OF own, of m "[]" m' changed] assms
  have r: "set changed = {key \<in> set (map fst ps). length (the (map_of ps key)) \<noteq> 1}"
    "\<forall>name. m' name = (if name \<in> set (map fst ps) then Some (f32_get (the (map_of ps name)) 0)
                        else m name)"
    by (simp_all add: init_parameters_def)
  have "\<forall>name a. map_of ps name = Some a \<longrightarrow> m' name = Some (f32_get a 0)"
  proof (intro allI impI)
    fix name a assume a: "map_of ps name = Some a"
    then have "name \<in> set (map fst ps)" by (auto dest: map_of_SomeD intro: rev_image_eqI)
    with r(2) a show "m' name = Some (f32_get a 0)" by simp
  qed
  with r(1) own show ?thesis by auto
qed





lemma frames_lower_untouched:
  "frames impl po inp ps changed frame (out, s) = (r, out', s') \<Longrightarrow>
   length out' = length out \<and> (\<forall>c j. c < length out \<and> j < frame \<longrightarrow> out' ! c ! j = out ! c ! j)"
proof (induction rule: frames_loop_induct)
  case (Step frame out s v s1 r out' s')
  then show ?case by (auto simp: nth_shape_other)
qed simp_all

lemma frame_call_resolved_calls:
  assumes "frame_call impl inp ps changed frame s = Inl (r, s') \<or>
           frame_call impl inp ps changed frame s = Inr (v, s')"
    and "next s = Resolved f"
  shows "\<exists>tail. calls s' = calls s @ tail \<and> invocations tail = nexts tail"
proof -
  obtain e s1 where p: "prepare inp ps changed frame s = (e, s1)"
    by (cases "prepare inp ps changed frame s")
  note pe = prepare_effect [OF p]
  show ?thesis
  proof (cases e)
    case (Some err)
    with assms(1) p have "s' = s1" by (auto simp: frame_call_def)
    with pe show ?thesis by (intro exI [of _ "[]"]) simp
  next
    case None
    obtain x s2 where c: "call_next impl s1 = (x, s2)" by (cases "call_next impl s1")
    from pe assms(2) have "next s1 = Resolved f" by simp
    from call_next_resolved [OF c this] pe
    have s2: "calls s2 = calls s @ [NextCalled (args s1), Invoked (args s1)]" by simp
    from assms(1) p None c have "calls s' = calls s2"
      by (auto simp: frame_call_def split: sum.splits prod.splits if_splits dest!: unwrap_effect)
    with s2 show ?thesis
      by (intro exI [of _ "[NextCalled (args s1), Invoked (args s1)]"]) simp
  qed
qed

lemma frames_resolved_calls:
  "frames impl po inp ps changed frame (out, s) = (r, out', s') \<Longrightarrow> next s = Resolved f \<Longrightarrow>
   \<exists>tail. calls s' = calls s @ tail \<and> invocations tail = nexts tail"
proof (induction rule: frames_loop_induct)
  case (Empty frame s)
  then show ?case by (intro exI [of _ "[]"]) simp
next
  case (Finished frame out s)
  then show ?case by (intro exI [of _ "[]"]) simp
next
  case (Exit frame out s r s')
  then show ?case using frame_call_resolved_calls [of impl inp ps changed frame s r s' _ f] by simp
next
  case (Step frame out s v s1 r out' s')
  from frame_call_resolved_calls [of impl inp ps changed frame s _ s1 v f] Step(3) Step.prems
  obtain t1 where t1: "calls s1 = calls s @ t1" "invocations t1 = nexts t1" by auto
  from frame_call_resolved [of impl inp ps changed frame s _ s1 v f] Step(3) Step.prems
  have "next s1 = Resolved f" by simp
  from Step.IH [OF this] obtain t2 where t2: "calls s' = calls s1 @ t2" "invocations t2 = nexts t2"
    by auto
  from t1 t2 show ?case by (intro exI [of _ "t1 @ t2"]) simp
qed

lemma generator_frame_0:
  assumes "next s = First" and "\<not> isDone s"
    and "\<forall>key\<in>set changed. map_of ps key \<noteq> None"
  shows "\<exists>a s'. frame_call (GeneratorImpl create resume ret) inp ps changed frame s =
       Inr (Scalar (Number (Num 0)), s') \<and>
     calls s' = calls s @ [NextCalled a, GeneratorCreated a] \<and>
     next s' = Resolved resume \<and> cleanup s' = ret"
proof -
  obtain e s1 where p: "prepare inp ps changed frame s = (e, s1)"
    by (cases "prepare inp ps changed frame s")
  have e: "e = None"
    using p update_changed_own_keys [OF assms(3), of frame "parameters (args s)"]
    by (auto simp: prepare_def split: prod.splits option.splits)
  from prepare_effect [OF p] assms
  have s1: "next s1 = First" "\<not> isDone s1" "calls s1 = calls s" by simp_all
  with p e show ?thesis
    by (simp add: frame_call_def call_next_def first_def Let_def)
qed

lemma generator_first_block:
  assumes first: "next s = First" and nd: "\<not> isDone s"
    and out: "out = ch0 # chs" and len: "0 < length ch0"
    and p: "process (GeneratorImpl create resume ret) po sr inputs (out # rest) ps s =
      (r, outputs', s')"
  shows "(\<forall>c. c < length out \<and> 0 < length (out ! c) \<longrightarrow> hd outputs' ! c ! 0 = Num 0) \<and>
     (\<exists>a tail. calls s' = calls s @ NextCalled a # GeneratorCreated a # tail \<and>
        invocations tail = nexts tail)"
proof -
  let ?impl = "GeneratorImpl create resume ret"
  obtain inp changed out0 rest0 s2
    where e: "enter sr inputs (out # rest) ps s = Inr (inp, changed, out0, rest0, s2)"
    using nd by (cases "enter sr inputs (out # rest) ps s")
      (auto simp: enter_def Let_def split: prod.splits)
  from enter_Inr [OF e] first
  have eq: "out0 = out" "rest0 = rest" "calls s2 = calls s" "\<not> isDone s2" "next s2 = First"
    "init_parameters ps (parameters (args s)) = (parameters (args s2), changed)"
    by simp_all
  from init_parameters_result [OF eq(6)]
  have own: "\<forall>key\<in>set changed. map_of ps key \<noteq> None" by simp
  from generator_frame_0 [OF eq(5) eq(4) own, of create resume ret inp 0]
  obtain a s3 where s3: "frame_call ?impl inp ps changed 0 s2 = Inr (Scalar (Number (Num 0)), s3)"
    "calls s3 = calls s2 @ [NextCalled a, GeneratorCreated a]" "next s3 = Resolved resume"
    by blast
  let ?out1 = "shape (Scalar (Number (Num 0))) 0 out"
  obtain r1 out2 s4 where f: "frames ?impl po inp ps changed 1 (?out1, s3) = (r1, out2, s4)"
    by (cases "frames ?impl po inp ps changed 1 (?out1, s3)")
  have "frames ?impl po inp ps changed 0 (out, s2) = (r1, out2, s4)"
    using s3(1) f out len by (simp add: frames.simps frame_body_def)
  with e eq p have res: "outputs' = out2 # rest" "s' = s4" by (simp_all add: process_def)
  from frames_lower_untouched [OF f]
  have low: "\<forall>c j. c < length out \<and> j < 1 \<longrightarrow> out2 ! c ! j = ?out1 ! c ! j" by simp
  have zero: "\<forall>c. c < length out \<and> 0 < length (out ! c) \<longrightarrow> hd outputs' ! c ! 0 = Num 0"
  proof (intro allI impI)
    fix c assume c: "c < length out \<and> 0 < length (out ! c)"
    with low have "out2 ! c ! 0 = ?out1 ! c ! 0" by simp
    also from c have "\<dots> = Num 0" by (simp add: nth_shape_frame)
    finally show "hd outputs' ! c ! 0 = Num 0" using res by simp
  qed
  from frames_resolved_calls [OF f s3(3)]
  obtain tail where "calls s4 = calls s3 @ tail" "invocations tail = nexts tail" by blast
  with s3(2) eq(3) res
  have "calls s' = calls s @ NextCalled a # GeneratorCreated a # tail \<and>
      invocations tail = nexts tail"
    by simp
  with zero show ?thesis by blast
qed

text \<open>The refresh of \<^verbatim>\<open>args.input\<close>: for a bus with channels, and for one without.\<close>

lemma length_set_length [simp]: "length (set_length n xs) = n"
  by (simp add: set_length_def)

lemma set_length_same: "length xs = n \<Longrightarrow> set_length n xs = xs"
  by (simp add: set_length_def)

lemma refresh_prefix:
  "k \<le> length inp \<Longrightarrow> 0 < k \<Longrightarrow>
   fold (\<lambda>channel ys. (set_length (length inp) ys)[channel := f32_get (inp ! channel) frame])
     [0..<k] xs =
   map (\<lambda>channel. f32_get (inp ! channel) frame) [0..<k] @ drop k (set_length (length inp) xs)"
proof (induction k)
  case 0
  then show ?case by simp
next
  case (Suc k)
  let ?F = "\<lambda>channel ys. (set_length (length inp) ys)[channel := f32_get (inp ! channel) frame]"
  let ?g = "\<lambda>channel. f32_get (inp ! channel) frame"
  let ?base = "set_length (length inp) xs"
  show ?case
  proof (cases "k = 0")
    case True
    have "?base \<noteq> []" using Suc.prems by (metis length_set_length True list.size(3) not_less_eq_eq le_zero_eq)
    then obtain b bs where b: "?base = b # bs" by (cases ?base) auto
    with True show ?thesis by (simp add: drop_Suc)
  next
    case False
    with Suc have ih: "fold ?F [0..<k] xs = map ?g [0..<k] @ drop k ?base" by simp
    have len: "length (map ?g [0..<k] @ drop k ?base) = length inp"
      using Suc.prems by simp
    have "fold ?F [0..<Suc k] xs = ?F k (fold ?F [0..<k] xs)" by simp
    also have "\<dots> = (map ?g [0..<k] @ drop k ?base)[k := ?g k]"
      unfolding ih using set_length_same [OF len] by simp
    also have "\<dots> = map ?g [0..<k] @ (drop k ?base)[0 := ?g k]"
      by (simp add: list_update_append)
    also have "(drop k ?base)[0 := ?g k] = ?g k # drop (Suc k) ?base"
    proof -
      have "k < length ?base" using Suc.prems by simp
      then have "drop k ?base = ?base ! k # drop (Suc k) ?base"
        by (simp add: Cons_nth_drop_Suc)
      then show ?thesis by simp
    qed
    finally show ?thesis by simp
  qed
qed

lemma refresh_input_live:
  "inp \<noteq> [] \<Longrightarrow> refresh_input inp frame xs = map (\<lambda>ch. f32_get ch frame) inp"
proof -
  assume "inp \<noteq> []"
  then have "refresh_input inp frame xs =
      map (\<lambda>channel. f32_get (inp ! channel) frame) [0..<length inp]"
    unfolding refresh_input_def using refresh_prefix [of "length inp" inp frame xs] by simp
  also have "\<dots> = map (\<lambda>ch. f32_get ch frame) inp"
    by (rule nth_equalityI) simp_all
  finally show ?thesis .
qed

lemma refresh_input_disconnected: "refresh_input [] frame xs = xs"
  by (simp add: refresh_input_def)

section \<open>Claims\<close>

text \<open>
  C7. A call of \<^verbatim>\<open>process\<close> made while \<^verbatim>\<open>isDone\<close> is true raises the RangeError of line 47
  and changes neither the instance nor the output buffers; this is so after a message
  whose lower-cased text is \<^verbatim>\<open>stop\<close>, and after a block in which the frame loop has
  posted \<^verbatim>\<open>done\<close> on the completion reported by the implementation.
\<close>

theorem process_after_done_raises:
  "(isDone s \<longrightarrow> process impl po sr inputs outputs ps s = (Threw RangeError, outputs, s)) \<and>
   (toLowerCase d = ''stop'' \<longrightarrow>
      process impl po sr inputs outputs ps (listener d s) =
        (Threw RangeError, outputs, listener d s)) \<and>
   (process impl po sr inputs outputs ps s = (r, outputs', s') \<and>
    posted s' = posted s @ [''done''] \<longrightarrow>
      process impl po sr2 inputs2 outputs2 ps2 s' = (Threw RangeError, outputs2, s'))"
proof (intro conjI impI)
  assume "isDone s"
  then show "process impl po sr inputs outputs ps s = (Threw RangeError, outputs, s)"
    by (rule process_isDone)
next
  assume "toLowerCase d = ''stop''"
  then have "isDone (listener d s)" by (rule listener_stop)
  then show "process impl po sr inputs outputs ps (listener d s) =
      (Threw RangeError, outputs, listener d s)"
    by (rule process_isDone)
next
  assume a: "process impl po sr inputs outputs ps s = (r, outputs', s') \<and>
      posted s' = posted s @ [''done'']"
  have "isDone s'"
  proof (cases "isDone s")
    case True
    with a show ?thesis by (simp add: process_isDone)
  next
    case False
    with a process_emits [of impl po sr inputs outputs ps s r outputs' s'] show ?thesis
      by auto
  qed
  then show "process impl po sr2 inputs2 outputs2 ps2 s' = (Threw RangeError, outputs2, s')"
    by (rule process_isDone)
qed

theorem process_after_done_raises_witness:
  "isDone (stop (constructor None 44100 1 :: (int, nat) subclass)) \<and>
   toLowerCase ''StOp'' = ''stop'' \<and>
   posted (snd (snd (process countdown_generator False 44100 [] silence []
                       (constructor None 44100 1)))) = [''done''] \<and>
   fst (process countdown_generator False 44100 [] silence []
          (stop (constructor None 44100 1))) = Threw RangeError \<and>
   fst (process countdown_generator False 44100 [] silence []
          (listener ''StOp'' (constructor None 44100 1))) = Threw RangeError \<and>
   fst (process countdown_generator False 44100 [] silence []
          (snd (snd (process countdown_generator False 44100 [] silence []
                       (constructor None 44100 1))))) = Threw RangeError"
proof -
  let ?s = "constructor None 44100 (1::nat) :: (int, nat) subclass"
  let ?p = "process countdown_generator False 44100 [] silence [] ?s"
  have h1: "isDone (stop ?s)"
    by (simp add: stop_def constructor_def)
  have h2: "toLowerCase ''StOp'' = ''stop''"
    by code_simp
  have h3: "posted (snd (snd ?p)) = [''done'']"
    by code_simp
  have h3': "?p = (fst ?p, fst (snd ?p), snd (snd ?p)) \<and>
      posted (snd (snd ?p)) = posted ?s @ [''done'']"
    using h3 by (simp add: constructor_def)
  note at_stopped = process_after_done_raises [of "stop ?s" countdown_generator False 44100 "[]" silence
      "[]" "''StOp''" "fst ?p" "fst (snd ?p)" "snd (snd ?p)" 44100 "[]" silence "[]"]
  note at_start = process_after_done_raises [of ?s countdown_generator False 44100 "[]" silence
      "[]" "''StOp''" "fst ?p" "fst (snd ?p)" "snd (snd ?p)" 44100 "[]" silence "[]"]
  from at_stopped h1 have c1: "fst (process countdown_generator False 44100 [] silence [] (stop ?s)) =
      Threw RangeError"
    by simp
  from at_start h2 have c2: "fst (process countdown_generator False 44100 [] silence []
      (listener ''StOp'' ?s)) = Threw RangeError"
    by simp
  from at_start h3' have c3: "fst (process countdown_generator False 44100 [] silence []
      (snd (snd ?p))) = Threw RangeError"
    by simp
  from h1 h2 h3 c1 c2 c3 show ?thesis by simp
qed







text \<open>
  C9, as stated: the captured cleanup is invoked exactly once, also when more than one
  stop message is received. Below a generator has run for a block and two stop messages
  are handled: \<^verbatim>\<open>iterator.return\<close> has been called twice.
\<close>

theorem cleanup_twice_counterexample:
  "cleanups (calls (run countdown_generator False
      [Process [] silence [] 44100, Message ''stop'', Message ''STOP'']
      (constructor None 44100 5))) = 2"
  by code_simp

text \<open>
  C9, amended. Once the first frame has captured the cleanup of the iterator, the
  cleanup is invoked once for every stop message handled: once when one is received,
  and again for each further one; \<^verbatim>\<open>process\<close> never invokes it. When no cleanup has been
  captured, a stop message sets \<^verbatim>\<open>isDone\<close> and does nothing else.
\<close>

theorem cleanup_once_per_stop:
  "(next s = Resolved f \<and> cleanup s = Some ret \<longrightarrow>
      cleanups (calls (run impl po evs s)) = cleanups (calls s) + stops evs) \<and>
   (cleanup s = None \<and> toLowerCase d = ''stop'' \<longrightarrow> listener d s = s\<lparr>isDone := True\<rparr>)"
  using run_cleanups [of s f ret impl po evs]
  by (simp add: listener_def stop_def)

theorem cleanup_once_per_stop_witness:
  "cleanup (constructor None 44100 5 :: (int, nat) subclass) = None \<and>
   toLowerCase ''sToP'' = ''stop'' \<and>
   calls (listener ''sToP'' (constructor None 44100 5 :: (int, nat) subclass)) = [] \<and>
   isDone (listener ''sToP'' (constructor None 44100 5 :: (int, nat) subclass)) \<and>
   next (snd (snd (process countdown_generator False 44100 [] silence []
                     (constructor None 44100 5)))) = Resolved countdown \<and>
   cleanups (calls (run countdown_generator False
      [Message ''sToP'', Process [] silence [] 44100]
      (snd (snd (process countdown_generator False 44100 [] silence []
                   (constructor None 44100 5)))))) = 1"
proof -
  let ?s = "constructor None 44100 5 :: (int, nat) subclass"
  let ?s' = "snd (snd (process countdown_generator False 44100 [] silence [] ?s))"
  have h1: "cleanup ?s = None" by (simp add: constructor_def)
  have h2: "toLowerCase ''sToP'' = ''stop''" by code_simp
  have g1: "next ?s' = Resolved countdown"
    by (simp add: model_defs silence_def countdown_generator_def countdown_def)
  have g2: "cleanup ?s' = Some (\<lambda>st. 0)"
    by (simp add: model_defs silence_def countdown_generator_def countdown_def)
  have g3: "cleanups (calls ?s') = 0" by code_simp
  have g4: "stops [Message ''sToP'', Process [] silence [] (44100::int)] = 1" by code_simp
  from cleanup_once_per_stop [of ?s' countdown "\<lambda>st. 0" countdown_generator False
      "[Message ''sToP'', Process [] silence [] 44100]" "''sToP''"] g1 g2 g3 g4
  have c1: "cleanups (calls (run countdown_generator False
      [Message ''sToP'', Process [] silence [] 44100] ?s')) = 1"
    by simp
  from cleanup_once_per_stop [of ?s f ret countdown_generator False "[]" "''sToP''"] h1 h2
  have c2: "listener ''sToP'' ?s = ?s\<lparr>isDone := True\<rparr>" by simp
  have c3: "calls (listener ''sToP'' ?s) = []" "isDone (listener ''sToP'' ?s)"
    unfolding c2 by (simp_all add: constructor_def)
  from h1 h2 g1 c1 c3 show ?thesis by simp
qed

text \<open>
  C2 gives the shaping rule for every returned sequence: positional copy when it is at
  least as long as the output bus has channels, its first entry on every channel when it
  is shorter. The README names the \<^verbatim>\<open>Float32Array\<close> as the sequence an implementation
  returns. Line 99 tests \<^verbatim>\<open>Array.isArray\<close>, which is false of a typed array, so that a
  typed array is written as one number would be (first equation below, for every typed
  array). Below, a pure function returns the typed array of 1 and 2 to a bus of two
  channels: the frame written holds \<^verbatim>\<open>NaN\<close> on both channels where the rule puts 1 and 2,
  and a block of three frames is \<^verbatim>\<open>NaN\<close> throughout. For an array and for a number the
  cell written is the one of the rule (\<open>nth_shape_frame\<close>; the rounding of the store
  apart, which the model leaves out).
\<close>

theorem typed_array_written_as_number:
  "shape (Typed a) frame out = shape (Scalar (Number (array_to_number a))) frame out \<and>
   array_to_number [Num 1, Num (2::int)] = NaN \<and>
   frame_body (PureImpl typed_pair) [] [] [] 1 (hd silence, constructor None 44100 ()) =
     Inr (shape (Typed [Num 1, Num 2]) 1 (hd silence),
          snd (projr (frame_call (PureImpl typed_pair) [] [] [] 1 (constructor None 44100 ())))) \<and>
   shape (Typed [Num 1, Num 2]) 1 (hd silence) = [[Num 0, NaN, Num 0], [Num 0, NaN, Num 0]] \<and>
   fst (process (PureImpl typed_pair) False 44100 [] silence [] (constructor None 44100 ())) =
     Returned True \<and>
   fst (snd (process (PureImpl typed_pair) False 44100 [] silence []
               (constructor None 44100 ()))) =
     [[[NaN, NaN, NaN], [NaN, NaN, NaN]]]"
proof -
  let ?s = "constructor None 44100 () :: (int, unit) subclass"
  let ?c = "frame_call (PureImpl typed_pair) [] [] [] 1 ?s"
  have branch: "shape (Typed a) frame out =
      shape (Scalar (Number (array_to_number a))) frame out"
    by (simp add: shape_def)
  have nan: "array_to_number [Num 1, Num (2::int)] = NaN"
    by (simp add: array_to_number_def)
  have c: "\<not> isl ?c" "fst (projr ?c) = Typed [Num 1, Num 2]" by code_simp+
  then obtain s' where s': "?c = Inr (Typed [Num 1, Num 2], s')"
    by (metis prod.collapse sum.collapse(2))
  then have "frame_body (PureImpl typed_pair) [] [] [] 1 (hd silence, ?s) =
      Inr (shape (Typed [Num 1, Num 2]) 1 (hd silence), s')"
    by (simp add: frame_body_def)
  with s' have body: "frame_body (PureImpl typed_pair) [] [] [] 1 (hd silence, ?s) =
      Inr (shape (Typed [Num 1, Num 2]) 1 (hd silence), snd (projr ?c))"
    by simp
  have cell: "shape (Typed [Num 1, Num (2::int)]) 1 (hd silence) =
      [[Num 0, NaN, Num 0], [Num 0, NaN, Num 0]]"
    by code_simp
  have r: "fst (process (PureImpl typed_pair) False 44100 [] silence [] ?s) = Returned True"
    by code_simp
  have block: "fst (snd (process (PureImpl typed_pair) False 44100 [] silence [] ?s)) =
      [[[NaN, NaN, NaN], [NaN, NaN, NaN]]]"
    by code_simp
  from branch nan body cell r block show ?thesis by simp
qed

text \<open>
  C10. When the call of \<^verbatim>\<open>this.next\<close> at frame \<open>k\<close> returns \<^verbatim>\<open>{value, done: true}\<close>, the
  loop posts \<^verbatim>\<open>done\<close> and returns false at once: the value is not written and the
  output buffers stay as they were at the start of frame \<open>k\<close>. For the block as a whole:
  when a call of \<^verbatim>\<open>process\<close> sets \<^verbatim>\<open>isDone\<close>, in its \<open>n\<close>-th call of \<^verbatim>\<open>this.next\<close> (at frame
  \<open>n - 1\<close>), the cells of every output channel from frame \<open>n - 1\<close> on are those passed in.
\<close>

theorem done_discards_value:
  "(prepare inp ps changed k s = (None, s1) \<and>
    call_next impl s1 = (Inr (YieldOutput v True), s2) \<and> out = ch0 # chs \<and> k < length ch0 \<longrightarrow>
      frames impl po inp ps changed k (out, s) =
        (Returned False, out, s2\<lparr>isDone := True, posted := posted s2 @ [''done'']\<rparr>)) \<and>
   (\<not> isDone t \<and> process impl po sr inputs (buf # rest) ps t = (r, outputs', t') \<and> isDone t' \<longrightarrow>
      r = Returned False \<and> posted t' = posted t @ [''done''] \<and> tl outputs' = rest \<and>
      length (nexts (calls t)) < length (nexts (calls t')) \<and>
      (\<forall>c j. c < length buf \<and>
         length (nexts (calls t')) - length (nexts (calls t)) - 1 \<le> j \<longrightarrow>
         hd outputs' ! c ! j = buf ! c ! j))"
proof (intro conjI impI)
  assume "prepare inp ps changed k s = (None, s1) \<and>
    call_next impl s1 = (Inr (YieldOutput v True), s2) \<and> out = ch0 # chs \<and> k < length ch0"
  then show "frames impl po inp ps changed k (out, s) =
      (Returned False, out, s2\<lparr>isDone := True, posted := posted s2 @ [''done'']\<rparr>)"
    using done_exit [of inp ps changed k s s1 impl v s2 out ch0 chs po] by simp
next
  assume a: "\<not> isDone t \<and> process impl po sr inputs (buf # rest) ps t = (r, outputs', t') \<and>
    isDone t'"
  then have p: "process impl po sr inputs (buf # rest) ps t = (r, outputs', t')"
    and nd: "\<not> isDone t" and d: "isDone t'"
    by simp_all
  from process_emits [OF p nd] d
  show "r = Returned False" and "posted t' = posted t @ [''done'']" by auto
  obtain inp0 changed0 out0 rest0 t2
    where e: "enter sr inputs (buf # rest) ps t = Inr (inp0, changed0, out0, rest0, t2)"
    using nd by (cases "enter sr inputs (buf # rest) ps t")
      (auto simp: enter_def Let_def split: prod.splits)
  from enter_Inr [OF e] have eq: "out0 = buf" "rest0 = rest" "calls t2 = calls t" "\<not> isDone t2"
    by simp_all
  obtain r1 out1 t3 where f: "frames impl po inp0 ps changed0 0 (buf, t2) = (r1, out1, t3)"
    by (cases "frames impl po inp0 ps changed0 0 (buf, t2)")
  with e eq p have res: "outputs' = out1 # rest" "t' = t3" by (simp_all add: process_def)
  from frames_done_untouched [OF f eq(4)] d res eq(3)
  have u: "length (nexts (calls t)) < length (nexts (calls t'))"
    "\<forall>c j. c < length buf \<and>
       0 + (length (nexts (calls t')) - length (nexts (calls t))) - 1 \<le> j \<longrightarrow>
       out1 ! c ! j = buf ! c ! j"
    by simp_all
  show "tl outputs' = rest" using res by simp
  show "length (nexts (calls t)) < length (nexts (calls t'))" by (rule u(1))
  show "\<forall>c j. c < length buf \<and>
         length (nexts (calls t')) - length (nexts (calls t)) - 1 \<le> j \<longrightarrow>
         hd outputs' ! c ! j = buf ! c ! j"
    using u(2) res by simp
qed

theorem done_discards_value_witness:
  "fst (prepare [] [] [] 2 ((constructor None 44100 0 :: (int, nat) subclass)
         \<lparr>next := Resolved countdown\<rparr>)) = None \<and>
   fst (call_next countdown_generator
         (snd (prepare [] [] [] 2 ((constructor None 44100 0 :: (int, nat) subclass)
            \<lparr>next := Resolved countdown\<rparr>)))) =
     Inr (YieldOutput (Scalar (Number (Num 0))) True) \<and>
   fst (frames countdown_generator False [] [] [] 2
         (hd noise, (constructor None 44100 0)\<lparr>next := Resolved countdown\<rparr>)) =
     Returned False \<and>
   fst (snd (frames countdown_generator False [] [] [] 2
         (hd noise, (constructor None 44100 0)\<lparr>next := Resolved countdown\<rparr>))) = hd noise \<and>
   \<not> isDone (constructor None 44100 1 :: (int, nat) subclass) \<and>
   isDone (snd (snd (process countdown_generator False 44100 [] noise []
                       (constructor None 44100 1)))) \<and>
   length (nexts (calls (snd (snd (process countdown_generator False 44100 [] noise []
                       (constructor None 44100 1)))))) = 3 \<and>
   fst (process countdown_generator False 44100 [] noise [] (constructor None 44100 1)) =
     Returned False \<and>
   hd (fst (snd (process countdown_generator False 44100 [] noise []
                   (constructor None 44100 1)))) ! 1 ! 2 = Num 9"
proof -
  let ?s = "(constructor None 44100 0 :: (int, nat) subclass)\<lparr>next := Resolved countdown\<rparr>"
  let ?s1 = "snd (prepare [] [] [] 2 ?s)"
  let ?s2 = "snd (call_next countdown_generator ?s1)"
  let ?out = "[[Num 7, Num 8, Num 9], [Num 7, Num 8, Num (9::int)]]"
  let ?t = "constructor None 44100 1 :: (int, nat) subclass"
  let ?p = "process countdown_generator False 44100 [] noise [] ?t"
  have h1: "fst (prepare [] [] [] 2 ?s) = None" by code_simp
  have h2: "fst (call_next countdown_generator ?s1) =
      Inr (YieldOutput (Scalar (Number (Num 0))) True)"
    by code_simp
  have out: "hd noise = ?out" "noise = ?out # []" by (simp_all add: noise_def)
  have h12: "prepare [] [] [] 2 ?s = (None, ?s1) \<and>
      call_next countdown_generator ?s1 = (Inr (YieldOutput (Scalar (Number (Num 0))) True), ?s2) \<and>
      ?out = [Num 7, Num 8, Num 9] # [[Num 7, Num 8, Num 9]] \<and>
      (2::nat) < length [Num 7, Num 8, Num (9::int)]"
    using h1 h2 by (simp add: prod_eq_iff)
  have h3: "\<not> isDone ?t" by (simp add: constructor_def)
  have h4: "isDone (snd (snd ?p))" by code_simp
  have h5: "length (nexts (calls (snd (snd ?p)))) = 3" by code_simp
  have h6: "nexts (calls ?t) = []" by (simp add: constructor_def)
  have h34: "\<not> isDone ?t \<and>
      process countdown_generator False 44100 [] (?out # []) [] ?t =
        (fst ?p, fst (snd ?p), snd (snd ?p)) \<and> isDone (snd (snd ?p))"
    using h3 h4 out by simp
  note inst = done_discards_value [where inp = "[]" and ps = "[]" and changed = "[]" and k = 2
      and s = ?s and ?s1.0 = ?s1 and impl = countdown_generator
      and v = "Scalar (Number (Num 0))" and ?s2.0 = ?s2 and out = ?out
      and ?ch0.0 = "[Num 7, Num 8, Num 9]" and chs = "[[Num 7, Num 8, Num 9]]" and po = False
      and t = ?t and sr = 44100 and inputs = "[]" and buf = ?out and rest = "[]"
      and r = "fst ?p" and outputs' = "fst (snd ?p)" and t' = "snd (snd ?p)"]
  from inst h12 have c1: "frames countdown_generator False [] [] [] 2 (?out, ?s) =
      (Returned False, ?out, ?s2\<lparr>isDone := True, posted := posted ?s2 @ [''done'']\<rparr>)"
    by blast
  from inst h34 have c2: "fst ?p = Returned False"
    and c3: "\<forall>c j. c < length ?out \<and>
         length (nexts (calls (snd (snd ?p)))) - length (nexts (calls ?t)) - 1 \<le> j \<longrightarrow>
         hd (fst (snd ?p)) ! c ! j = ?out ! c ! j"
    by blast+
  from c3 h5 h6 have c4: "hd (fst (snd ?p)) ! 1 ! 2 = Num 9"
    by simp
  from h1 h2 c1 h3 h4 h5 c2 c4 out show ?thesis by simp
qed



text \<open>
  C3. For a generator, in the block that processes the first frame ever (\<^verbatim>\<open>this.next\<close> is
  still \<^verbatim>\<open>this.first\<close>): frame 0 of every output channel holds zero at the end of the
  call, whatever the iterator yields; the call of \<^verbatim>\<open>this.next\<close> at frame 0 creates the
  iterator and does not resume it; and the iterator is resumed at each later call of
  \<^verbatim>\<open>this.next\<close> of the block, from frame 1 on, with the arguments of that call.
\<close>

theorem generator_first_frame_zero:
  "next s = First \<and> \<not> isDone s \<and> out = ch0 # chs \<and> 0 < length ch0 \<and>
   process (GeneratorImpl create resume ret) po sr inputs (out # rest) ps s = (r, outputs', s') \<longrightarrow>
     (\<forall>c. c < length out \<and> 0 < length (out ! c) \<longrightarrow> hd outputs' ! c ! 0 = Num 0) \<and>
     (\<exists>a tail. calls s' = calls s @ NextCalled a # GeneratorCreated a # tail \<and>
        invocations tail = nexts tail) \<and>
     invocations (calls s') =
       invocations (calls s) @ tl (drop (length (nexts (calls s))) (nexts (calls s')))"
proof (intro impI, elim conjE)
  assume a: "next s = First" "\<not> isDone s" "out = ch0 # chs" "0 < length ch0"
    "process (GeneratorImpl create resume ret) po sr inputs (out # rest) ps s = (r, outputs', s')"
  note block = generator_first_block [OF a]
  then obtain a0 tail where t: "calls s' = calls s @ NextCalled a0 # GeneratorCreated a0 # tail"
    "invocations tail = nexts tail"
    by blast
  have "invocations (calls s') =
       invocations (calls s) @ tl (drop (length (nexts (calls s))) (nexts (calls s')))"
    unfolding t(1) using t(2) by simp
  with block show "(\<forall>c. c < length out \<and> 0 < length (out ! c) \<longrightarrow> hd outputs' ! c ! 0 = Num 0) \<and>
     (\<exists>a tail. calls s' = calls s @ NextCalled a # GeneratorCreated a # tail \<and>
        invocations tail = nexts tail) \<and>
     invocations (calls s') =
       invocations (calls s) @ tl (drop (length (nexts (calls s))) (nexts (calls s')))"
    by blast
qed

theorem generator_first_frame_zero_witness:
  "next (constructor None 44100 5 :: (int, nat) subclass) = First \<and>
   \<not> isDone (constructor None 44100 5 :: (int, nat) subclass) \<and>
   fst (countdown 5 (args (constructor None 44100 5 :: (int, nat) subclass))) =
     YieldOutput (Scalar (Number (Num 5))) False \<and>
   hd (fst (snd (process countdown_generator False 44100 [] noise []
                   (constructor None 44100 5)))) ! 0 ! 0 = Num 0 \<and>
   hd (fst (snd (process countdown_generator False 44100 [] noise []
                   (constructor None 44100 5)))) ! 1 ! 0 = Num 0 \<and>
   length (nexts (calls (snd (snd (process countdown_generator False 44100 [] noise []
                   (constructor None 44100 5)))))) = 3 \<and>
   length (invocations (calls (snd (snd (process countdown_generator False 44100 [] noise []
                   (constructor None 44100 5)))))) = 2"
proof -
  let ?s = "constructor None 44100 5 :: (int, nat) subclass"
  let ?p = "process countdown_generator False 44100 [] noise [] ?s"
  let ?out = "[[Num 7, Num 8, Num 9], [Num 7, Num 8, Num (9::int)]]"
  have h1: "next ?s = First" and h2: "\<not> isDone ?s"
    and before: "nexts (calls ?s) = []" "invocations (calls ?s) = []"
    by (simp_all add: constructor_def)
  have y: "fst (countdown 5 (args ?s)) = YieldOutput (Scalar (Number (Num 5))) False"
    by (simp add: countdown_def)
  have n: "length (nexts (calls (snd (snd ?p)))) = 3" by code_simp
  have hyp: "next ?s = First \<and> \<not> isDone ?s \<and> ?out = [Num 7, Num 8, Num 9] # [[Num 7, Num 8, Num 9]] \<and>
      0 < length [Num 7, Num 8, Num (9::int)] \<and>
      process (GeneratorImpl (\<lambda>a st. st) countdown (Some (\<lambda>st. 0))) False 44100 [] (?out # []) []
        ?s = (fst ?p, fst (snd ?p), snd (snd ?p))"
    using h1 h2 by (simp add: countdown_generator_def noise_def)
  from generator_first_frame_zero [where s = ?s and out = ?out
      and ?ch0.0 = "[Num 7, Num 8, Num 9]" and chs = "[[Num 7, Num 8, Num 9]]"
      and create = "\<lambda>a st. st" and resume = countdown and ret = "Some (\<lambda>st. 0)" and po = False
      and sr = 44100 and inputs = "[]" and rest = "[]" and ps = "[]"
      and r = "fst ?p" and outputs' = "fst (snd ?p)" and s' = "snd (snd ?p)"] hyp
  have z: "\<forall>c. c < length ?out \<and> 0 < length (?out ! c) \<longrightarrow> hd (fst (snd ?p)) ! c ! 0 = Num 0"
    and i: "invocations (calls (snd (snd ?p))) =
       invocations (calls ?s) @ tl (drop (length (nexts (calls ?s))) (nexts (calls (snd (snd ?p)))))"
    by blast+
  from z have z0: "hd (fst (snd ?p)) ! 0 ! 0 = Num 0" and z1: "hd (fst (snd ?p)) ! 1 ! 0 = Num 0"
    by simp_all
  from i before n have "length (invocations (calls (snd (snd ?p)))) = 2" by simp
  with h1 h2 y z0 z1 n show ?thesis by simp
qed

text \<open>
  C4 says that after the refresh \<^verbatim>\<open>args.input\<close> has the length of the live input bus,
  0 when the input is disconnected. The assignment to \<^verbatim>\<open>args.input.length\<close> stands inside
  the loop over the channels (lines 79 to 82), which does not run for a bus without
  channels. Below, a first block has one input channel with the samples 1, 2, 3; a
  second block has an input bus without channels, a third has no input bus. In the six
  frames of the last two blocks \<^verbatim>\<open>args.input\<close> still has length 1 and holds the sample 3.
\<close>

theorem input_kept_when_disconnected:
  "map input (nexts (calls (run (PureImpl passthrough) False
      [Process [ramp] silence [] 44100, Process [[]] silence [] 44100,
       Process [] silence [] 44100]
      (constructor None 44100 ())))) =
   [[Number (Num 1)], [Number (Num 2)], [Number (Num 3)],
    [Number (Num 3)], [Number (Num 3)], [Number (Num 3)],
    [Number (Num 3)], [Number (Num 3)], [Number (Num 3)]]"
  by code_simp

text \<open>
  C8 says that the instance is constructed with the frame arguments passed to its
  constructor. \<^verbatim>\<open>first\<close> runs \<^verbatim>\<open>new (implementation.impl)()\<close>: for every class, the
  constructor is called once and receives no argument; then \<^verbatim>\<open>instance.next\<close> is invoked
  with the frame arguments and becomes \<^verbatim>\<open>this.next\<close>, or, when the instance has none,
  the Error of line 146 is raised.
\<close>

theorem class_constructed_without_arguments:
  "calls (snd (first (ClassImpl construct (Some advance)) s)) =
     calls s @ [Constructed None, Invoked (args s)] \<and>
   next (snd (first (ClassImpl construct (Some advance)) s)) = Resolved advance \<and>
   fst (first (ClassImpl construct (Some advance)) s) =
     Inr (fst (advance (construct None (impl_state s)) (args s))) \<and>
   calls (snd (first (ClassImpl construct None) s)) = calls s @ [Constructed None] \<and>
   impl_state (snd (first (ClassImpl construct None) s)) = construct None (impl_state s) \<and>
   fst (first (ClassImpl construct None) s) = Inl Error"
  by (simp add: first_def invoke_def Let_def split: prod.splits)

end
